theory Spec2Isabelle
  imports Main "HOL-Library.Word" "HOL-Library.Product_Lexorder" "HOL-Library.List_Lexorder"
begin

section \<open>JavaScript strings and values\<close>

text \<open>
  A JavaScript string is a sequence of UTF-16 code units. The regular expression of the
  code-block handler has no \<open>u\<close> flag, so it works on code units, and its class \<open>\s\<close>
  holds code units beyond Latin-1; the model therefore keeps sixteen-bit units.
  \<open>js\<close> writes an ASCII literal as such a string.
\<close>

type_synonym code_unit = "16 word"
type_synonym jsstring = "code_unit list"

abbreviation js :: "string \<Rightarrow> jsstring" where
  "js s \<equiv> map of_char s"

text \<open>
  The values that the modelled props and frontmatter fields take: \<open>undefined\<close> (a prop
  that was not passed), \<open>null\<close> (a frontmatter field that the query found absent),
  booleans and strings.
\<close>

datatype jsval = Undefined | Null | JBool bool | JStr jsstring

text \<open>ToBoolean, as used by \<open>&&\<close>, \<open>!\<close> and \<open>? :\<close>.\<close>

fun truthy :: "jsval \<Rightarrow> bool" where
  "truthy Undefined = False"
| "truthy Null = False"
| "truthy (JBool b) = b"
| "truthy (JStr s) = (s \<noteq> [])"

text \<open>ToString, as used by a template literal.\<close>

fun to_string :: "jsval \<Rightarrow> jsstring" where
  "to_string Undefined = js ''undefined''"
| "to_string Null = js ''null''"
| "to_string (JBool b) = (if b then js ''true'' else js ''false'')"
| "to_string (JStr s) = s"

text \<open>
  ToString of an integral number such as the result of \<open>getFullYear()\<close>: decimal digits,
  with a minus sign for a negative value.
\<close>

function digits :: "nat \<Rightarrow> jsstring" where
  "digits n = (if n < 10 then [48 + of_nat n] else digits (n div 10) @ [48 + of_nat (n mod 10)])"
  by pat_completeness auto
termination
  by (relation "measure id") auto

declare digits.simps [simp del]

definition number_to_string :: "int \<Rightarrow> jsstring" where
  "number_to_string y = (if y < 0 then 45 # digits (nat (- y)) else digits (nat y))"

section \<open>React elements\<close>

text \<open>
  The objects that are passed on as props: the result of the page query of \<open>Post\<close>. The
  fields \<open>title\<close> and \<open>slug\<close> are required header fields and hold strings; \<open>date\<close>,
  \<open>video_url\<close> and \<open>video_teaser\<close> hold a string or \<open>null\<close>; \<open>banner\<close> is \<open>null\<close> or an image
  file node, whose \<open>childImageSharp.fluid\<close> is an object of the image plugin (type \<open>'f\<close>).
\<close>

record 'f image_sharp =
  fluid :: 'f

record 'f file_node =
  childImageSharp :: "'f image_sharp"

record 'f frontmatter_fields =
  title :: jsstring
  video_url :: jsval
  video_teaser :: jsval
  date :: jsval
  banner :: "'f file_node option"
  slug :: jsstring
  fm_keywords :: "jsstring list"

record site_metadata =
  site_keywords :: "jsstring list"

record site_node =
  siteMetadata :: site_metadata

text \<open>
  What a component returns: an element with a type name, props and children, a text child,
  or a child that React renders as nothing (\<open>null\<close>, \<open>undefined\<close>, \<open>true\<close>, \<open>false\<close>).
  Elements of other components are kept as elements, as React keeps them until it renders.
  The \<open>css\<close> props hold constant style sheets and are left out, as is the call of
  \<open>console.log\<close> in \<open>Post\<close>.
\<close>

datatype 'f attr =
    AVal jsval
  | ASite site_node
  | AFrontmatter "'f frontmatter_fields"
  | AFluid 'f

datatype 'f node =
    Elem string "(string \<times> 'f attr) list" "'f node list"
  | Text jsstring
  | Empty

text \<open>A JavaScript value in child position.\<close>

fun child :: "jsval \<Rightarrow> 'f node" where
  "child (JStr s) = Text s"
| "child v = Empty"

text \<open>\<open>a && e\<close> in child position: \<open>e\<close> when \<open>a\<close> is truthy, else the value of \<open>a\<close>.\<close>

definition and_then :: "jsval \<Rightarrow> 'f node \<Rightarrow> 'f node" where
  "and_then a e = (if truthy a then e else child a)"

fun node_children :: "'f node \<Rightarrow> 'f node list" where
  "node_children (Elem n ps cs) = cs"
| "node_children v = []"

fun node_props :: "'f node \<Rightarrow> (string \<times> 'f attr) list" where
  "node_props (Elem n ps cs) = ps"
| "node_props v = []"

text \<open>The type names of all elements of a tree, and all its nodes.\<close>

fun tags :: "'f node \<Rightarrow> string list" where
  "tags (Elem n ps cs) = n # concat (map tags cs)"
| "tags v = []"

fun subtrees :: "'f node \<Rightarrow> 'f node list" where
  "subtrees (Elem n ps cs) = Elem n ps cs # concat (map subtrees cs)"
| "subtrees v = [v]"

section \<open>Site configuration\<close>

text \<open>The fields of the configuration object that the modelled components read.\<close>

record config =
  siteUrl :: jsstring
  twitter :: jsstring
  twitterHandle :: jsstring

definition website :: config where
  "website = \<lparr> siteUrl = js ''https://joefiorini.com'',
               twitter = js ''https://twitter.com/joegrammer2/'',
               twitterHandle = js ''@joegrammer2'' \<rparr>"

section \<open>The code-block fix-up\<close>

text \<open>
  The class \<open>\s\<close> of ECMAScript: the white space and line terminator code units.
\<close>

definition is_newline :: "code_unit \<Rightarrow> bool" where
  "is_newline c \<longleftrightarrow> c = 0x0A"

definition is_space :: "code_unit \<Rightarrow> bool" where
  "is_space c \<longleftrightarrow>
     c = 0x09 \<or> c = 0x0A \<or> c = 0x0B \<or> c = 0x0C \<or> c = 0x0D \<or> c = 0x20 \<or> c = 0xA0 \<or>
     c = 0x1680 \<or> (0x2000 \<le> c \<and> c \<le> 0x200A) \<or> c = 0x2028 \<or> c = 0x2029 \<or>
     c = 0x202F \<or> c = 0x205F \<or> c = 0x3000 \<or> c = 0xFEFF"

text \<open>
  One attempt of \<open>/(\n+)_export(\s)/\<close> at the start of \<open>s\<close>. What follows group 1 is
  the literal \<open>_export\<close> and one unit of the class \<open>\s\<close>, which is group 2.
\<close>

definition after_newlines :: "jsstring \<Rightarrow> (code_unit \<times> jsstring) option" where
  "after_newlines r =
     (if take 7 r = js ''_export'' then
        (case drop 7 r of
           [] \<Rightarrow> None
         | g2 # rest \<Rightarrow> if is_space g2 then Some (g2, rest) else None)
      else None)"

text \<open>
  The quantifier \<open>\n+\<close> is greedy: it first takes the whole run of newlines at the start of
  \<open>s\<close> and, when the rest of the expression does not match, gives them back one at a time
  down to a single newline. \<open>backtrack k s\<close> tries group 1 with \<open>k\<close> newlines, then with
  fewer. The result holds group 1, group 2 and the text after the match.
\<close>

fun backtrack :: "nat \<Rightarrow> jsstring \<Rightarrow> (jsstring \<times> code_unit \<times> jsstring) option" where
  "backtrack 0 s = None"
| "backtrack (Suc k) s =
     (case after_newlines (drop (Suc k) s) of
        Some (g2, rest) \<Rightarrow> Some (take (Suc k) s, g2, rest)
      | None \<Rightarrow> backtrack k s)"

definition match_at :: "jsstring \<Rightarrow> (jsstring \<times> code_unit \<times> jsstring) option" where
  "match_at s = backtrack (length (takeWhile is_newline s)) s"

text \<open>
  \<open>codeString.replace(/(\n+)_export(\s)/g, '$1export$2')\<close>: the search moves through the
  string from left to right; at the first position where the expression matches, the match
  is replaced and the search goes on after it; a unit at which nothing matches is copied.
\<close>

function replace_export :: "jsstring \<Rightarrow> jsstring" where
  "replace_export [] = []"
| "replace_export (c # cs) =
     (case match_at (c # cs) of
        Some (g1, g2, rest) \<Rightarrow> g1 @ js ''export'' @ [g2] @ replace_export rest
      | None \<Rightarrow> c # replace_export cs)"
  by pat_completeness auto
termination
proof (relation "measure length")
  show "wf (measure length)" by simp
next
  fix c :: code_unit and cs x2 g1 y g2 rest
  assume "match_at (c # cs) = Some x2" "(g1, y) = x2" "(g2, rest) = y"
  then have m: "match_at (c # cs) = Some (g1, g2, rest)" by simp
  have "length r < length s" if "backtrack k s = Some (g, w, r)" for k s g w r
    using that
  proof (induction k)
    case 0
    then show ?case by simp
  next
    case (Suc k)
    show ?case
    proof (cases "after_newlines (drop (Suc k) s)")
      case None
      with Suc show ?thesis by simp
    next
      case (Some a)
      with Suc.prems have "after_newlines (drop (Suc k) s) = Some (w, r)"
        by (cases a) simp
      then have "drop 7 (drop (Suc k) s) = w # r"
        by (auto simp: after_newlines_def split: if_splits list.splits)
      then have "length (w # r) = length s - (Suc k + 7)"
        by (metis length_drop drop_drop add.commute)
      then show ?thesis by simp
    qed
  qed
  with m have "length rest < length (c # cs)"
    unfolding match_at_def by blast
  then show "(rest, c # cs) \<in> measure length" by simp
next
  fix c :: code_unit and cs
  show "(cs, c # cs) \<in> measure length" by simp
qed

text \<open>
  Occurrences of a pattern followed by a white space unit: at the start of a string, and
  anywhere in it.
\<close>

definition starts_ws :: "jsstring \<Rightarrow> jsstring \<Rightarrow> bool" where
  "starts_ws p t \<longleftrightarrow>
     take (length p) t = p \<and> (case drop (length p) t of [] \<Rightarrow> False | w # _ \<Rightarrow> is_space w)"

fun occurs_ws :: "jsstring \<Rightarrow> jsstring \<Rightarrow> bool" where
  "occurs_ws p [] = False"
| "occurs_ws p (c # cs) = (starts_ws p (c # cs) \<or> occurs_ws p cs)"

section \<open>The MDX component map\<close>

datatype error = TypeError

text \<open>
  The elements that the entries of the map return: a component with the props object
  spread into it.
\<close>

datatype ('p, 'c) element = Title 'p | Subtitle 'p | Paragraph 'p | Code 'c | HtmlPre 'p

record code_props =
  codeString :: jsstring

text \<open>Reading \<open>props.codeString\<close> throws a TypeError when \<open>props\<close> is \<open>undefined\<close>.\<close>

definition read_codeString :: "'a code_props_scheme option \<Rightarrow> error + jsstring" where
  "read_codeString props = (case props of None \<Rightarrow> Inl TypeError | Some p \<Rightarrow> Inr (codeString p))"

text \<open>
  The entry \<open>pre\<close>. \<open>preToCodeBlock\<close> comes from the package mdx-utils and is a parameter:
  it returns \<open>undefined\<close> (\<open>None\<close>) or an object with a \<open>codeString\<close>. The handler reads and
  rewrites \<open>props.codeString\<close> first and tests \<open>props\<close> afterwards.
\<close>

definition pre ::
  "('p \<Rightarrow> 'a code_props_scheme option) \<Rightarrow> 'p \<Rightarrow> error + ('p, 'a code_props_scheme) element" where
  "pre preToCodeBlock preProps =
     (let props = preToCodeBlock preProps in
      case read_codeString props of
        Inl e \<Rightarrow> Inl e
      | Inr s \<Rightarrow>
          (case map_option (\<lambda>p. p\<lparr>codeString := replace_export s\<rparr>) props of
             Some p \<Rightarrow> Inr (Code p)
           | None \<Rightarrow> Inr (HtmlPre preProps)))"

definition components ::
  "('p \<Rightarrow> 'a code_props_scheme option) \<Rightarrow>
   string \<rightharpoonup> ('p \<Rightarrow> error + ('p, 'a code_props_scheme) element)" where
  "components preToCodeBlock =
     [''h1'' \<mapsto> (\<lambda>props. Inr (Title props)),
      ''h2'' \<mapsto> (\<lambda>props. Inr (Subtitle props)),
      ''p'' \<mapsto> (\<lambda>props. Inr (Paragraph props)),
      ''pre'' \<mapsto> pre preToCodeBlock]"

text \<open>
  Modelled from the spec: \<open>preToCodeBlock\<close> of the package mdx-utils is not among the
  sources. By the specification it extracts the declared language tag and the raw text of
  a code fence, and extracts nothing from a bare block with no recognized code fence.
\<close>

datatype pre_props = Fence jsval jsstring | Bare jsstring

record fence_props = code_props +
  language :: jsval

fun preToCodeBlock :: "pre_props \<Rightarrow> fence_props option" where
  "preToCodeBlock (Fence lang text) = Some \<lparr> codeString = text, language = lang \<rparr>"
| "preToCodeBlock (Bare text) = None"

section \<open>The post template\<close>

record mdx_code =
  body :: jsstring

record 'f mdx_node =
  frontmatter :: "'f frontmatter_fields"
  code :: mdx_code

record 'f page_data =
  site :: site_node
  mdx :: "'f mdx_node"

text \<open>\<open>Array.prototype.join\<close> on an array of strings.\<close>

fun join :: "jsstring \<Rightarrow> jsstring list \<Rightarrow> jsstring" where
  "join sep [] = []"
| "join sep [x] = x"
| "join sep (x # y # ys) = x @ sep @ join sep (y # ys)"

text \<open>
  The parts of the element that \<open>Post\<close> returns, in the order of the source:
  \<open>{date && <h3>{date}</h3>}\<close>, \<open>{banner && (<div><Img ... /></div>)}\<close>,
  \<open>{videoUrl ? (<Aside> ... </Aside>) : null}\<close> and the container with \<open>Share\<close>.
  The second argument of \<open>Post\<close>, \<open>pageContext\<close>, is not read by the body.
\<close>

definition date_line :: "jsval \<Rightarrow> 'f node" where
  "date_line d = and_then d (Elem ''h3'' [] [child d])"

definition banner_section :: "site_node \<Rightarrow> 'f file_node option \<Rightarrow> 'f node" where
  "banner_section s b =
     (case b of
        None \<Rightarrow> Empty
      | Some f \<Rightarrow>
          Elem ''div'' []
            [Elem ''Img''
               [(''sizes'', AFluid (fluid (childImageSharp f))),
                (''alt'', AVal (JStr (join (js '', '') (site_keywords (siteMetadata s)))))] []])"

definition video_callout :: "jsval \<Rightarrow> jsval \<Rightarrow> 'f node" where
  "video_callout videoUrl videoTeaser =
     (if truthy videoUrl then
        Elem ''Aside'' []
          [Elem ''h3'' []
             [Elem ''div'' [] [Elem ''YouTube'' [(''url'', AVal videoUrl)] []],
              Text (js '' ''),
              Text (js ''This post has a companion video'')],
           (if truthy videoTeaser then Elem ''p'' [] [child videoTeaser] else Empty),
           Elem ''p'' []
             [Elem ''OutboundLink'' [(''href'', AVal videoUrl)] [Text (js ''Watch the video'')]]]
      else Empty)"

definition share_block :: "config \<Rightarrow> 'f frontmatter_fields \<Rightarrow> 'f node" where
  "share_block cfg fm =
     Elem ''Container'' [(''noVerticalPadding'', AVal (JBool True))]
       [Elem ''Share''
          [(''url'', AVal (JStr (siteUrl cfg @ js ''/'' @ slug fm @ js ''/''))),
           (''title'', AVal (JStr (title fm))),
           (''twitterHandle'', AVal (JStr (twitterHandle cfg)))] [],
        Elem ''br'' [] []]"

definition Post :: "config \<Rightarrow> 'f page_data \<Rightarrow> 'f node" where
  "Post cfg data =
     (let fm = frontmatter (mdx data) in
      Elem ''Layout'' [(''site'', ASite (site data)), (''frontmatter'', AFrontmatter fm)]
        [Elem ''SEO'' [(''frontmatter'', AFrontmatter fm), (''isBlogPost'', AVal (JBool True))] [],
         Elem ''article'' []
           [Elem ''Container'' []
              [Elem ''h1'' [] [Text (title fm)],
               Elem ''div'' [] [date_line (date fm)],
               banner_section (site data) (banner fm),
               Elem ''br'' [] [],
               video_callout (video_url fm) (video_teaser fm),
               Elem ''MDXRenderer'' [] [Text (body (code (mdx data)))]]],
         share_block cfg fm])"

text \<open>The children of the container inside \<open>article\<close>: the sections of the post.\<close>

definition post_sections :: "'f node \<Rightarrow> 'f node list" where
  "post_sections page = node_children (hd (node_children (node_children page ! 1)))"

text \<open>
  The page data of the post \<open>content/blog/demo01/index.md\<close>, and a change of its frontmatter.
\<close>

definition demo01 :: "unit page_data" where
  "demo01 =
     \<lparr> site = \<lparr> siteMetadata = \<lparr> site_keywords = [js ''React'', js ''TypeScript''] \<rparr> \<rparr>,
       mdx = \<lparr> frontmatter =
                \<lparr> title = js ''Taming Complex State with Union Types'',
                  video_url = Null, video_teaser = Null,
                  date = JStr (js ''January 01, 2017''),
                  banner = Some \<lparr> childImageSharp = \<lparr> fluid = () \<rparr> \<rparr>,
                  slug = js ''demo-01'',
                  fm_keywords = [] \<rparr>,
              code = \<lparr> body = js ''function _createMdxContent() {}'' \<rparr> \<rparr> \<rparr>"

definition with_frontmatter ::
  "('f frontmatter_fields \<Rightarrow> 'f frontmatter_fields) \<Rightarrow> 'f page_data \<Rightarrow> 'f page_data" where
  "with_frontmatter f data = data\<lparr>mdx := (mdx data)\<lparr>frontmatter := f (frontmatter (mdx data))\<rparr>\<rparr>"

section \<open>The footer\<close>

record footer_props =
  author :: jsval
  noSubscribeForm :: jsval
  isPost :: jsval

definition HireMe :: "config \<Rightarrow> 'f node" where
  "HireMe cfg =
     Elem ''div'' []
       [Elem ''h2'' [] [Text (js ''Did you find this advice helpful?'')],
        Elem ''h3'' [] [Text (js ''Hire me to help you tame the complexity of your React apps'')],
        Elem ''p'' []
          [Text (js ''I've worked in with teams and codebases of all sizes at all stages of a project.''),
           Text (js '' ''),
           Elem ''OutboundLink'' [(''href'', AVal (JStr (js ''https://calendly.com/joe-fiorini'')))]
             [Text (js ''Let's set up a time to chat about your project'')],
           Text (js '' ''),
           Text (js ''and see if there's anywhere I can help out!'')],
        Elem ''h3'' [] [Text (js ''I'd like to hear your thoughts'')],
        Elem ''p'' []
          [Text (js ''Find me on ''),
           Elem ''a'' [(''href'', AVal (JStr (twitter cfg)))] [Text (js ''Twitter'')],
           Text (js '' and let's talk.'')]]"

text \<open>
  \<open>{author && `${author} \<copyright> ${new Date().getFullYear()}`}\<close>. The year is read from
  the system clock when the footer is rendered; it is the first argument of the model.
\<close>

definition copyright_line :: "int \<Rightarrow> jsval \<Rightarrow> 'f node" where
  "copyright_line year a =
     and_then a (Text (to_string a @ js '' '' @ [0xA9] @ js '' '' @ number_to_string year))"

definition subscribe_section :: "jsval \<Rightarrow> jsval \<Rightarrow> 'f node" where
  "subscribe_section noSub post =
     and_then (JBool (\<not> truthy noSub))
       (Elem ''div'' []
          [and_then post (Elem ''HireMe'' [] []),
           Elem ''SubscribeForm'' [] [],
           Elem ''br'' [] [],
           Elem ''br'' [] []])"

definition Footer :: "int \<Rightarrow> footer_props \<Rightarrow> 'f node" where
  "Footer year p =
     Elem ''footer'' []
       [Elem ''Container'' []
          [subscribe_section (noSubscribeForm p) (isPost p),
           Elem ''div'' []
             [Elem ''div'' [] [copyright_line year (author p)],
              Elem ''div'' []
                [Elem ''Twitter'' [] [], Elem ''GitHub'' [] [],
                 Elem ''LinkedIn'' [] [], Elem ''YouTube'' [] []]]]]"

section \<open>The page generator\<close>

text \<open>
  Modelled from the spec: the page generator (the build script that creates one page per
  post and passes \<open>prev\<close> and \<open>next\<close> in the page context) is not among the sources. By the
  specification it takes the records with \<open>published = true\<close>, aborts when two of them
  share a slug, computes for each record its previous and next neighbour in ascending
  order of publication date, ties broken by slug, and emits one page per record, the
  most recent first.
\<close>

type_synonym calendar_date = "nat \<times> nat \<times> nat"

record content_record =
  cr_slug :: jsstring
  cr_date :: calendar_date
  cr_title :: jsstring
  cr_description :: jsstring
  cr_published :: bool

datatype gen_error = DuplicateSlugError

record page =
  page_record :: content_record
  page_prev :: "content_record option"
  page_next :: "content_record option"

definition chrono_key :: "content_record \<Rightarrow> calendar_date \<times> jsstring" where
  "chrono_key r = (cr_date r, cr_slug r)"

fun neighbours :: "content_record option \<Rightarrow> content_record list \<Rightarrow> page list" where
  "neighbours prv [] = []"
| "neighbours prv [x] = [\<lparr> page_record = x, page_prev = prv, page_next = None \<rparr>]"
| "neighbours prv (x # y # ys) =
     \<lparr> page_record = x, page_prev = prv, page_next = Some y \<rparr> # neighbours (Some x) (y # ys)"

definition generate :: "content_record list \<Rightarrow> gen_error + page list" where
  "generate rs =
     (let pub = filter cr_published rs in
      if \<not> distinct (map cr_slug pub) then Inl DuplicateSlugError
      else Inr (rev (neighbours None (sort_key chrono_key pub))))"

text \<open>
  What the claim asks of a page's links within the published records \<open>rs\<close>: the next
  link is the record with the smallest date strictly greater than the page's own, and is
  absent exactly for the latest record; the previous link mirrors it.
\<close>

definition next_ok :: "content_record list \<Rightarrow> page \<Rightarrow> bool" where
  "next_ok rs pg \<longleftrightarrow>
     (case page_next pg of
        None \<Rightarrow> \<forall>r \<in> set rs. cr_date r \<le> cr_date (page_record pg)
      | Some n \<Rightarrow> n \<in> set rs \<and> cr_date (page_record pg) < cr_date n \<and>
          (\<forall>r \<in> set rs. cr_date (page_record pg) < cr_date r \<longrightarrow> cr_date n \<le> cr_date r))"

definition prev_ok :: "content_record list \<Rightarrow> page \<Rightarrow> bool" where
  "prev_ok rs pg \<longleftrightarrow>
     (case page_prev pg of
        None \<Rightarrow> \<forall>r \<in> set rs. cr_date (page_record pg) \<le> cr_date r
      | Some q \<Rightarrow> q \<in> set rs \<and> cr_date q < cr_date (page_record pg) \<and>
          (\<forall>r \<in> set rs. cr_date r < cr_date (page_record pg) \<longrightarrow> cr_date r \<le> cr_date q))"

text \<open>Two published posts and a draft.\<close>

definition post_a :: content_record where
  "post_a = \<lparr> cr_slug = js ''demo-01'', cr_date = (2017, 1, 1),
               cr_title = js ''Taming Complex State with Union Types'',
               cr_description = js ''A common anti pattern'', cr_published = True \<rparr>"

definition post_b :: content_record where
  "post_b = \<lparr> cr_slug = js ''demo-02'', cr_date = (2017, 2, 1),
               cr_title = js ''B'', cr_description = js ''Second post'', cr_published = True \<rparr>"

definition draft_c :: content_record where
  "draft_c = \<lparr> cr_slug = js ''draft'', cr_date = (2017, 1, 15),
               cr_title = js ''C'', cr_description = js ''Not published'', cr_published = False \<rparr>"

section \<open>Properties of the fix-up\<close>

text \<open>
  Backtracking never succeeds: with fewer newlines in group 1 a newline stands where \<open>_\<close>
  is required. So an attempt succeeds exactly when the whole run of newlines is followed
  by \<open>_export\<close> and a white space unit.
\<close>

lemma after_newlines_newline:
  assumes "k < length (takeWhile is_newline s)"
  shows "after_newlines (drop k s) = None"
proof -
  let ?n = "length (takeWhile is_newline s)"
  from assms have "k < length s"
    using length_takeWhile_le [of is_newline s] by simp
  then have d: "drop k s = s ! k # drop (Suc k) s" by (simp add: Cons_nth_drop_Suc)
  from assms have "takeWhile is_newline s ! k = s ! k" by (rule takeWhile_nth)
  moreover from assms have "is_newline (takeWhile is_newline s ! k)"
    by (metis nth_mem set_takeWhileD)
  ultimately have "s ! k = 0x0A" by (simp add: is_newline_def)
  with d show ?thesis by (simp add: after_newlines_def)
qed

lemma backtrack_fewer:
  "k < length (takeWhile is_newline s) \<Longrightarrow> backtrack k s = None"
proof (induction k)
  case 0
  show ?case by simp
next
  case (Suc k)
  then show ?case by (simp add: after_newlines_newline)
qed

lemma match_at_eq:
  "match_at s =
     (let g1 = takeWhile is_newline s; r = dropWhile is_newline s in
      if g1 \<noteq> [] \<and> take 7 r = js ''_export'' then
        (case drop 7 r of
           [] \<Rightarrow> None
         | g2 # rest \<Rightarrow> if is_space g2 then Some (g1, g2, rest) else None)
      else None)"
proof (cases "length (takeWhile is_newline s)")
  case 0
  then show ?thesis by (simp add: match_at_def)
next
  case (Suc m)
  have t: "take (Suc m) s = takeWhile is_newline s"
    using Suc takeWhile_eq_take [of is_newline s] by simp
  have d: "drop (Suc m) s = dropWhile is_newline s"
    using Suc dropWhile_eq_drop [of is_newline s] by simp
  have ne: "takeWhile is_newline s \<noteq> []" using Suc by auto
  have b: "backtrack m s = None" using Suc by (simp add: backtrack_fewer)
  show ?thesis
    unfolding match_at_def Suc
    by (simp add: t d b ne after_newlines_def Let_def split: list.splits)
qed

lemma starts_ws_iff: "starts_ws p t \<longleftrightarrow> (\<exists>w b. t = p @ w # b \<and> is_space w)"
proof
  assume a: "starts_ws p t"
  then obtain w b where d: "drop (length p) t = w # b" and w: "is_space w"
    by (auto simp: starts_ws_def split: list.splits)
  have "t = take (length p) t @ drop (length p) t" by simp
  with a d have "t = p @ w # b" by (simp add: starts_ws_def)
  with w show "\<exists>w b. t = p @ w # b \<and> is_space w" by blast
next
  assume "\<exists>w b. t = p @ w # b \<and> is_space w"
  then show "starts_ws p t" by (auto simp: starts_ws_def)
qed

lemma occurs_ws_iff:
  "occurs_ws p s \<longleftrightarrow> (\<exists>a w b. s = a @ p @ w # b \<and> is_space w)"
proof (induction s)
  case Nil
  then show ?case by simp
next
  case (Cons c cs)
  show ?case
  proof
    assume "occurs_ws p (c # cs)"
    then consider "starts_ws p (c # cs)" | "occurs_ws p cs" by auto
    then show "\<exists>a w b. c # cs = a @ p @ w # b \<and> is_space w"
    proof cases
      case 1
      then obtain w b where "c # cs = [] @ p @ w # b" "is_space w"
        by (auto simp: starts_ws_iff)
      then show ?thesis by blast
    next
      case 2
      with Cons.IH obtain a w b where "cs = a @ p @ w # b" "is_space w" by blast
      then have "c # cs = (c # a) @ p @ w # b" by simp
      with \<open>is_space w\<close> show ?thesis by blast
    qed
  next
    assume "\<exists>a w b. c # cs = a @ p @ w # b \<and> is_space w"
    then obtain a w b where e: "c # cs = a @ p @ w # b" and w: "is_space w" by blast
    show "occurs_ws p (c # cs)"
    proof (cases a)
      case Nil
      with e w have "starts_ws p (c # cs)" by (auto simp: starts_ws_iff)
      then show ?thesis by simp
    next
      case (Cons x a')
      with e have "cs = a' @ p @ w # b" by simp
      with w Cons.IH have "occurs_ws p cs" by blast
      then show ?thesis by simp
    qed
  qed
qed

lemma occurs_ws_suffix: "occurs_ws p t \<Longrightarrow> occurs_ws p (a @ t)"
  by (induction a) auto

lemma match_at_iff:
  "match_at s = Some (g, w, rest) \<longleftrightarrow>
     g \<noteq> [] \<and> (\<forall>c \<in> set g. is_newline c) \<and> s = g @ js ''_export'' @ w # rest \<and> is_space w"
proof
  assume a: "match_at s = Some (g, w, rest)"
  let ?r = "dropWhile is_newline s"
  from a have g: "g = takeWhile is_newline s" and ne: "g \<noteq> []"
    and t: "take 7 ?r = js ''_export''" and d: "drop 7 ?r = w # rest" and w: "is_space w"
    by (auto simp: match_at_eq Let_def split: if_splits list.splits)
  have "?r = take 7 ?r @ drop 7 ?r" by simp
  with t d have r: "?r = js ''_export'' @ w # rest" by simp
  have "s = takeWhile is_newline s @ ?r" by simp
  with g r have "s = g @ js ''_export'' @ w # rest" by simp
  moreover from g have "\<forall>c \<in> set g. is_newline c" by (auto dest: set_takeWhileD)
  ultimately show "g \<noteq> [] \<and> (\<forall>c \<in> set g. is_newline c) \<and> s = g @ js ''_export'' @ w # rest \<and> is_space w"
    using ne w by blast
next
  assume a: "g \<noteq> [] \<and> (\<forall>c \<in> set g. is_newline c) \<and> s = g @ js ''_export'' @ w # rest \<and> is_space w"
  then have tw: "takeWhile is_newline s = g"
    by (simp add: is_newline_def)
  from a have dw: "dropWhile is_newline s = js ''_export'' @ w # rest"
    by (simp add: is_newline_def)
  from a show "match_at s = Some (g, w, rest)"
    unfolding match_at_eq Let_def tw dw by simp
qed

lemma replace_match:
  "match_at s = Some (g, w, rest) \<Longrightarrow>
     replace_export s = g @ js ''export'' @ [w] @ replace_export rest"
  by (cases s) (auto simp: match_at_eq)

lemma match_at_occurs:
  assumes "match_at s = Some (g, w, rest)"
  shows "occurs_ws (0x0A # js ''_export'') s"
proof -
  from assms have g: "g \<noteq> []" "\<forall>c \<in> set g. is_newline c"
    and s: "s = g @ js ''_export'' @ w # rest" and w: "is_space w"
    by (simp_all add: match_at_iff)
  from g have "g = butlast g @ [0x0A]"
    by (metis append_butlast_last_id is_newline_def last_in_set)
  with s have "s = butlast g @ (0x0A # js ''_export'') @ w # rest"
    by (metis append.assoc append_Cons append_Nil)
  with w show ?thesis unfolding occurs_ws_iff by blast
qed

lemma replace_unchanged:
  "\<not> occurs_ws (0x0A # js ''_export'') s \<Longrightarrow> replace_export s = s"
proof (induction s rule: replace_export.induct)
  case 1
  then show ?case by simp
next
  case (2 c cs)
  from "2.prems" have n: "match_at (c # cs) = None"
    by (metis match_at_occurs option.exhaust prod_cases3)
  from "2.prems" have "\<not> occurs_ws (0x0A # js ''_export'') cs" by simp
  with "2.IH"(1) n have "replace_export cs = cs" by simp
  with n show ?case by (simp add: replace_export.simps)
qed

lemma newlines_no_legacy:
  "\<forall>c \<in> set u. is_newline c \<Longrightarrow> \<not> occurs_ws (0x0A # js ''_export'') u"
proof
  assume a: "\<forall>c \<in> set u. is_newline c" and "occurs_ws (0x0A # js ''_export'') u"
  then obtain x w b where "u = x @ (0x0A # js ''_export'') @ w # b"
    unfolding occurs_ws_iff by blast
  then have "0x5F \<in> set u" by simp
  with a show False by (auto simp: is_newline_def)
qed

lemma replace_newlines: "\<forall>c \<in> set u. is_newline c \<Longrightarrow> replace_export u = u"
  by (rule replace_unchanged) (rule newlines_no_legacy)

lemma match_at_append:
  "match_at x = Some (g, w, r) \<Longrightarrow> match_at (x @ y) = Some (g, w, r @ y)"
  by (simp add: match_at_iff)

text \<open>A match that starts in a string which does not consist of newlines only ends
  before a newline that closes the string.\<close>

lemma match_at_within:
  assumes nn: "\<not> (\<forall>c \<in> set u. is_newline c)"
    and m: "match_at (u @ 0x0A # y) = Some (g, w, rest)"
  shows "\<exists>rest0. match_at (u @ [0x0A]) = Some (g, w, rest0) \<and> rest = rest0 @ y"
proof -
  let ?r0 = "dropWhile is_newline u"
  from nn obtain x where x: "x \<in> set u" "\<not> is_newline x" by blast
  then have tw: "takeWhile is_newline (u @ z) = takeWhile is_newline u" for z
    by (rule takeWhile_append1)
  from x have dw: "dropWhile is_newline (u @ z) = ?r0 @ z" for z
    by (rule dropWhile_append1)
  from m have g: "g = takeWhile is_newline u" "g \<noteq> []"
    and t: "take 7 (?r0 @ 0x0A # y) = js ''_export''"
    and d: "drop 7 (?r0 @ 0x0A # y) = w # rest" and w: "is_space w"
    unfolding match_at_eq Let_def tw dw by (auto split: if_splits list.splits)
  have len: "7 \<le> length ?r0"
  proof (rule ccontr)
    assume "\<not> 7 \<le> length ?r0"
    then have "take 7 (?r0 @ 0x0A # y) = ?r0 @ 0x0A # take (6 - length ?r0) y"
      by (simp add: take_Cons')
    then have "0x0A \<in> set (take 7 (?r0 @ 0x0A # y))" by simp
    with t show False by simp
  qed
  then have t': "take 7 (?r0 @ [0x0A]) = js ''_export''"
    using t by simp
  from len have d1: "drop 7 (?r0 @ 0x0A # y) = drop 7 (?r0 @ [0x0A]) @ y" by simp
  from len have "drop 7 (?r0 @ [0x0A]) \<noteq> []" by simp
  then obtain w' rest0 where d': "drop 7 (?r0 @ [0x0A]) = w' # rest0"
    by (cases "drop 7 (?r0 @ [0x0A])") auto
  from d d1 d' have "w # rest = (w' # rest0) @ y" by metis
  then have e: "w' = w" "rest = rest0 @ y" by simp_all
  have "match_at (u @ [0x0A]) = Some (g, w, rest0)"
    unfolding match_at_eq Let_def tw dw using g t' d' e w by simp
  with e show ?thesis by blast
qed

lemma match_at_None_Nil [simp]: "match_at [] = None"
  by (simp add: match_at_eq)

lemma match_all_newlines:
  assumes "\<forall>c \<in> set u. is_newline c" "is_space w"
  shows "match_at (u @ 0x0A # js ''_export'' @ w # b) = Some (u @ [0x0A], w, b)"
proof -
  have "u @ 0x0A # js ''_export'' @ w # b = (u @ [0x0A]) @ js ''_export'' @ w # b" by simp
  moreover have "\<forall>c \<in> set (u @ [0x0A]). is_newline c"
    using assms by (simp add: is_newline_def)
  ultimately show ?thesis using assms(2) by (simp only: match_at_iff) simp
qed

text \<open>An occurrence of two newlines, \<open>_export\<close> and a white space unit is rewritten
  whatever stands before it: the text up to and including the first of the two newlines
  is rewritten as it would be alone.\<close>

lemma replace_double_newline:
  assumes w: "is_space w"
  shows "replace_export (u @ 0x0A # 0x0A # js ''_export'' @ w # b) =
         replace_export (u @ [0x0A]) @ 0x0A # js ''export'' @ w # replace_export b"
proof (induction u rule: length_induct)
  case (1 u)
  let ?y = "0x0A # js ''_export'' @ w # b"
  let ?z = "0x0A # js ''export'' @ w # replace_export b"
  show ?case
  proof (cases "\<forall>c \<in> set u. is_newline c")
    case True
    then have nl: "\<forall>c \<in> set (u @ [0x0A]). is_newline c" by (simp add: is_newline_def)
    have "match_at ((u @ [0x0A]) @ ?y) = Some ((u @ [0x0A]) @ [0x0A], w, b)"
      using nl w by (rule match_all_newlines)
    then have "replace_export ((u @ [0x0A]) @ ?y) =
        ((u @ [0x0A]) @ [0x0A]) @ js ''export'' @ [w] @ replace_export b"
      by (rule replace_match)
    moreover have "replace_export (u @ [0x0A]) = u @ [0x0A]"
      using nl by (rule replace_newlines)
    ultimately show ?thesis by simp
  next
    case False
    then obtain c cs where u: "u = c # cs" by (cases u) auto
    show ?thesis
    proof (cases "match_at (u @ [0x0A])")
      case None
      have n: "match_at (u @ 0x0A # ?y) = None"
      proof (rule ccontr)
        assume "match_at (u @ 0x0A # ?y) \<noteq> None"
        then obtain g w' rest where "match_at (u @ 0x0A # ?y) = Some (g, w', rest)"
          by (metis option.exhaust prod_cases3)
        from match_at_within [OF False this] None show False by auto
      qed
      have "length cs < length u" using u by simp
      with 1 have "replace_export (cs @ 0x0A # ?y) = replace_export (cs @ [0x0A]) @ ?z"
        by blast
      with n None u show ?thesis by simp
    next
      case (Some m)
      then obtain g w' rest0 where m: "match_at (u @ [0x0A]) = Some (g, w', rest0)"
        by (metis prod_cases3)
      from match_at_append [OF m, of ?y]
      have m2: "match_at (u @ 0x0A # ?y) = Some (g, w', rest0 @ ?y)" by simp
      from m have eq: "u @ [0x0A] = g @ js ''_export'' @ w' # rest0"
        by (simp add: match_at_iff)
      have r: "replace_export (rest0 @ ?y) = replace_export rest0 @ ?z"
      proof (cases rest0 rule: rev_cases)
        case Nil
        have "match_at ([] @ ?y) = Some ([] @ [0x0A], w, b)"
          using w by (intro match_all_newlines) simp_all
        from replace_match [OF this] Nil show ?thesis by simp
      next
        case (snoc rest1 l)
        with eq have l: "l = 0x0A" and "u = g @ js ''_export'' @ w' # rest1"
          by (simp_all add: append_eq_append_conv2 [of u "[0x0A]"] split: if_splits)
        then have "length rest1 < length u" by simp
        with 1 have "replace_export (rest1 @ 0x0A # ?y) = replace_export (rest1 @ [0x0A]) @ ?z"
          by blast
        with snoc l show ?thesis by simp
      qed
      from replace_match [OF m] replace_match [OF m2] r show ?thesis by simp
    qed
  qed
qed


lemma replace_nomatch:
  "match_at (c # cs) = None \<Longrightarrow> replace_export (c # cs) = c # replace_export cs"
  by simp

declare replace_export.simps(2) [simp del]

lemma replace_Nil_iff [simp]: "replace_export s = [] \<longleftrightarrow> s = []"
proof (cases s)
  case Nil
  then show ?thesis by simp
next
  case (Cons c cs)
  show ?thesis
  proof (cases "match_at (c # cs)")
    case None
    with Cons show ?thesis by (simp add: replace_nomatch)
  next
    case (Some m)
    then obtain g w rest where "match_at (c # cs) = Some (g, w, rest)"
      by (metis prod_cases3)
    from replace_match [OF this] Cons show ?thesis by simp
  qed
qed

lemma replace_hd: "replace_export (c # cs) = c' # r \<Longrightarrow> c' = c"
proof (cases "match_at (c # cs)")
  case None
  assume "replace_export (c # cs) = c' # r"
  with None show ?thesis by (simp add: replace_nomatch)
next
  case (Some m)
  assume a: "replace_export (c # cs) = c' # r"
  obtain g w rest where m: "match_at (c # cs) = Some (g, w, rest)"
    using Some by (metis prod_cases3)
  then have "g \<noteq> []" "c # cs = g @ js ''_export'' @ w # rest"
    by (simp_all add: match_at_iff)
  then obtain g' where "g = c # g'" by (cases g) auto
  with replace_match [OF m] a show ?thesis by simp
qed

lemma replace_last: "s \<noteq> [] \<Longrightarrow> last (replace_export s) = last s"
proof (induction s rule: replace_export.induct)
  case 1
  then show ?case by simp
next
  case (2 c cs)
  show ?case
  proof (cases "match_at (c # cs)")
    case None
    then have r: "replace_export (c # cs) = c # replace_export cs" by (rule replace_nomatch)
    show ?thesis
    proof (cases "cs = []")
      case True
      with r show ?thesis by simp
    next
      case False
      with "2.IH"(1) [OF None] r show ?thesis by simp
    qed
  next
    case (Some m)
    then obtain g w rest where m: "match_at (c # cs) = Some (g, w, rest)"
      by (metis prod_cases3)
    then have e: "c # cs = g @ js ''_export'' @ w # rest" by (simp add: match_at_iff)
    have ih: "rest \<noteq> [] \<Longrightarrow> last (replace_export rest) = last rest"
      using "2.IH"(2) [OF m refl refl] by simp
    have "last (replace_export (c # cs)) = last (w # replace_export rest)"
      using replace_match [OF m] by simp
    also have "\<dots> = last (w # rest)" using ih by (cases "rest = []") auto
    also have "\<dots> = last (c # cs)" unfolding e by simp
    finally show ?thesis .
  qed
qed

lemma replace_not_newline:
  "\<not> is_newline x \<Longrightarrow> replace_export (x # t) = x # replace_export t"
  by (rule replace_nomatch) (simp add: match_at_eq)

lemma replace_prefix_inv:
  "\<forall>c \<in> set p. \<not> is_newline c \<Longrightarrow> replace_export t = p @ r \<Longrightarrow>
     \<exists>t'. t = p @ t' \<and> replace_export t' = r"
proof (induction p arbitrary: t r)
  case Nil
  then show ?case by simp
next
  case (Cons x p)
  from Cons.prems(2) have "t \<noteq> []" by auto
  then obtain c cs where t: "t = c # cs" by (cases t) auto
  with Cons.prems(2) have "c = x" using replace_hd [of c cs x "p @ r"] by simp
  moreover from Cons.prems(1) have "replace_export (x # cs) = x # replace_export cs"
    by (simp add: replace_not_newline)
  ultimately have "replace_export cs = p @ r"
    using t Cons.prems(2) by simp
  with Cons.IH [of cs r] Cons.prems(1) obtain t' where "cs = p @ t'" "replace_export t' = r"
    by auto
  with t \<open>c = x\<close> show ?case by simp
qed

text \<open>What follows a rewritten \<open>_export\<close> in the output begins a match there only if it
  did so in the input.\<close>

lemma starts_legacy_replace:
  assumes "replace_export t = js ''_export'' @ w # r"
  shows "\<exists>t'. t = js ''_export'' @ w # t'"
proof -
  have "\<forall>c \<in> set (js ''_export''). \<not> is_newline c" by (simp add: is_newline_def)
  from replace_prefix_inv [OF this assms]
  obtain t1 where t1: "t = js ''_export'' @ t1" "replace_export t1 = w # r" by blast
  then have "t1 \<noteq> []" by auto
  then obtain c cs where "t1 = c # cs" by (cases t1) auto
  with t1 replace_hd [of c cs w r] show ?thesis by auto
qed

lemma no_legacy_after_newlines:
  assumes "\<forall>c \<in> set g. is_newline c"
  shows "occurs_ws (0x0A # js ''_export'') (g @ js ''export'' @ t) \<longleftrightarrow>
         occurs_ws (0x0A # js ''_export'') t"
  using assms
proof (induction g)
  case Nil
  show ?case by (simp add: starts_ws_def)
next
  case (Cons x g)
  then have "\<not> starts_ws (0x0A # js ''_export'') (x # g @ js ''export'' @ t)"
    by (cases g) (auto simp: starts_ws_def is_newline_def)
  with Cons show ?case by simp
qed

lemma replace_no_legacy:
  "\<not> occurs_ws (0x0A # js ''_export'' @ 0x0A # js ''_export'') s \<Longrightarrow>
   \<not> occurs_ws (0x0A # js ''_export'') (replace_export s)"
proof (induction s rule: replace_export.induct)
  case 1
  then show ?case by simp
next
  case (2 c cs)
  let ?L = "0x0A # js ''_export''"
  let ?C = "0x0A # js ''_export'' @ 0x0A # js ''_export''"
  show ?case
  proof (cases "match_at (c # cs)")
    case None
    from "2.prems" have "\<not> occurs_ws ?C cs" by simp
    with "2.IH"(1) None have ih: "\<not> occurs_ws ?L (replace_export cs)" by simp
    have "\<not> starts_ws ?L (c # replace_export cs)"
    proof
      assume "starts_ws ?L (c # replace_export cs)"
      then obtain w b where e: "c # replace_export cs = ?L @ w # b" and w: "is_space w"
        unfolding starts_ws_iff by blast
      then have c: "c = 0x0A" and "replace_export cs = js ''_export'' @ w # b" by simp_all
      from starts_legacy_replace [OF this(2)] obtain t' where "cs = js ''_export'' @ w # t'"
        by blast
      with c w have "match_at (c # cs) = Some ([0x0A], w, t')"
        by (simp add: match_at_iff is_newline_def)
      with None show False by simp
    qed
    with ih replace_nomatch [OF None] show ?thesis by simp
  next
    case (Some m)
    then obtain g w rest where m: "match_at (c # cs) = Some (g, w, rest)"
      by (metis prod_cases3)
    then have g: "g \<noteq> []" "\<forall>c \<in> set g. is_newline c"
      and e: "c # cs = g @ js ''_export'' @ w # rest" and w: "is_space w"
      by (simp_all add: match_at_iff)
    have "occurs_ws ?C rest \<Longrightarrow> occurs_ws ?C (c # cs)"
      unfolding e using occurs_ws_suffix [of ?C rest "g @ js ''_export'' @ [w]"] by simp
    with "2.prems" have "\<not> occurs_ws ?C rest" by blast
    with "2.IH"(2) [OF m refl refl] have ih: "\<not> occurs_ws ?L (replace_export rest)" by simp
    have "\<not> starts_ws ?L (w # replace_export rest)"
    proof
      assume "starts_ws ?L (w # replace_export rest)"
      then obtain w' b where e': "w # replace_export rest = ?L @ w' # b" and w': "is_space w'"
        unfolding starts_ws_iff by blast
      then have w10: "w = 0x0A" and "replace_export rest = js ''_export'' @ w' # b" by simp_all
      from starts_legacy_replace [OF this(2)] obtain t' where r: "rest = js ''_export'' @ w' # t'"
        by blast
      from g have "g = butlast g @ [0x0A]"
        by (metis append_butlast_last_id is_newline_def last_in_set)
      with e w10 r have "c # cs = butlast g @ ?C @ w' # t'"
        by (metis append.assoc append_Cons append_Nil)
      with w' have "occurs_ws ?C (c # cs)" unfolding occurs_ws_iff by blast
      with "2.prems" show False by blast
    qed
    with ih have "\<not> occurs_ws ?L (w # replace_export rest)" by simp
    then have "\<not> occurs_ws ?L (g @ js ''export'' @ w # replace_export rest)"
      using no_legacy_after_newlines [OF g(2)] by blast
    with replace_match [OF m] show ?thesis by simp
  qed
qed

lemma replace_length_le: "length (replace_export s) \<le> length s"
proof (induction s rule: replace_export.induct)
  case 1
  show ?case by simp
next
  case (2 c cs)
  show ?case
  proof (cases "match_at (c # cs)")
    case None
    with "2.IH"(1) replace_nomatch [OF None] show ?thesis by simp
  next
    case (Some m)
    then obtain g w rest where m: "match_at (c # cs) = Some (g, w, rest)"
      by (metis prod_cases3)
    then have e: "c # cs = g @ js ''_export'' @ w # rest" by (simp add: match_at_iff)
    have "length (c # cs) = length g + 8 + length rest" unfolding e by simp
    moreover have "length (replace_export (c # cs)) = length g + 7 + length (replace_export rest)"
      using replace_match [OF m] by simp
    moreover have "length (replace_export rest) \<le> length rest"
      using "2.IH"(2) [OF m refl refl] .
    ultimately show ?thesis by linarith
  qed
qed

lemma replace_shorter:
  "occurs_ws (0x0A # js ''_export'') s \<Longrightarrow> length (replace_export s) < length s"
proof (induction s rule: replace_export.induct)
  case 1
  then show ?case by simp
next
  case (2 c cs)
  show ?case
  proof (cases "match_at (c # cs)")
    case None
    have "\<not> starts_ws (0x0A # js ''_export'') (c # cs)"
    proof
      assume "starts_ws (0x0A # js ''_export'') (c # cs)"
      then obtain w b where "c # cs = (0x0A # js ''_export'') @ w # b" "is_space w"
        unfolding starts_ws_iff by blast
      then have "match_at (c # cs) = Some ([0x0A], w, b)"
        by (simp add: match_at_iff is_newline_def)
      with None show False by simp
    qed
    with "2.prems" have "occurs_ws (0x0A # js ''_export'') cs" by simp
    with "2.IH"(1) [OF None] replace_nomatch [OF None] show ?thesis by simp
  next
    case (Some m)
    then obtain g w rest where m: "match_at (c # cs) = Some (g, w, rest)"
      by (metis prod_cases3)
    then have e: "c # cs = g @ js ''_export'' @ w # rest" by (simp add: match_at_iff)
    have "length (c # cs) = length g + 8 + length rest" unfolding e by simp
    moreover have "length (replace_export (c # cs)) = length g + 7 + length (replace_export rest)"
      using replace_match [OF m] by simp
    moreover have "length (replace_export rest) \<le> length rest" by (rule replace_length_le)
    ultimately show ?thesis by linarith
  qed
qed

lemma replace_prefix:
  "\<forall>c \<in> set p. \<not> is_newline c \<Longrightarrow> replace_export (p @ t) = p @ replace_export t"
  by (induction p) (simp_all add: replace_not_newline)

lemma replace_Cons_hd: "\<exists>r. replace_export (c # cs) = c # r"
proof -
  have "replace_export (c # cs) \<noteq> []" by simp
  then obtain c' r where "replace_export (c # cs) = c' # r"
    by (cases "replace_export (c # cs)") auto
  with replace_hd [of c cs c' r] show ?thesis by simp
qed

text \<open>In a chain \<open>\n_export\n_export\<close> followed by white space the first pass leaves an
  occurrence of the legacy pattern.\<close>

lemma replace_chain_legacy:
  assumes w: "is_space w"
  shows "occurs_ws (0x0A # js ''_export'')
           (replace_export (a @ 0x0A # js ''_export'' @ 0x0A # js ''_export'' @ w # b))"
proof (induction a rule: length_induct)
  case (1 a)
  let ?L = "0x0A # js ''_export''"
  let ?y = "js ''_export'' @ 0x0A # js ''_export'' @ w # b"
  have nn: "\<forall>c \<in> set (js ''_export''). \<not> is_newline c" by (simp add: is_newline_def)
  have sp10: "is_space 0x0A" by (simp add: is_space_def)
  show ?case
  proof (cases "\<forall>c \<in> set a. is_newline c")
    case True
    have "match_at (a @ 0x0A # js ''_export'' @ 0x0A # (js ''_export'' @ w # b))
        = Some (a @ [0x0A], 0x0A, js ''_export'' @ w # b)"
      using True sp10 by (rule match_all_newlines)
    from replace_match [OF this]
    have "replace_export (a @ 0x0A # ?y)
        = (a @ [0x0A]) @ js ''export'' @ [0x0A] @ replace_export (js ''_export'' @ w # b)"
      by simp
    also have "replace_export (js ''_export'' @ w # b) = js ''_export'' @ replace_export (w # b)"
      using nn by (rule replace_prefix)
    also obtain r where "replace_export (w # b) = w # r" using replace_Cons_hd by blast
    finally have "replace_export (a @ 0x0A # ?y)
        = ((a @ [0x0A]) @ js ''export'') @ ?L @ w # r" by simp
    with w show ?thesis unfolding occurs_ws_iff by blast
  next
    case False
    then obtain c cs where a: "a = c # cs" by (cases a) auto
    show ?thesis
    proof (cases "match_at (a @ [0x0A])")
      case None
      have n: "match_at (a @ 0x0A # ?y) = None"
      proof (rule ccontr)
        assume "match_at (a @ 0x0A # ?y) \<noteq> None"
        then obtain g w' rest where "match_at (a @ 0x0A # ?y) = Some (g, w', rest)"
          by (metis option.exhaust prod_cases3)
        from match_at_within [OF False this] None show False by auto
      qed
      have "length cs < length a" using a by simp
      with 1 have "occurs_ws ?L (replace_export (cs @ 0x0A # ?y))" by blast
      moreover have "replace_export (a @ 0x0A # ?y) = c # replace_export (cs @ 0x0A # ?y)"
        using n a by (simp add: replace_nomatch)
      ultimately show ?thesis by simp
    next
      case (Some m)
      then obtain g w' rest0 where m: "match_at (a @ [0x0A]) = Some (g, w', rest0)"
        by (metis prod_cases3)
      from match_at_append [OF m, of ?y]
      have m2: "match_at (a @ 0x0A # ?y) = Some (g, w', rest0 @ ?y)" by simp
      from m have eq: "a @ [0x0A] = g @ js ''_export'' @ w' # rest0"
        by (simp add: match_at_iff)
      have "occurs_ws ?L (w' # replace_export (rest0 @ ?y))"
      proof (cases rest0 rule: rev_cases)
        case Nil
        with eq have w': "w' = 0x0A" by simp
        have "match_at ([] @ 0x0A # js ''_export'' @ w # b) = Some ([] @ [0x0A], w, b)"
          using w by (intro match_all_newlines) simp_all
        from replace_match [OF this]
        have "replace_export (0x0A # js ''_export'' @ w # b)
            = 0x0A # js ''export'' @ w # replace_export b" by simp
        moreover have "replace_export ?y
            = js ''_export'' @ replace_export (0x0A # js ''_export'' @ w # b)"
          using nn by (rule replace_prefix)
        ultimately have "w' # replace_export (rest0 @ ?y)
            = [] @ ?L @ 0x0A # js ''export'' @ w # replace_export b"
          using Nil w' by simp
        with sp10 show ?thesis unfolding occurs_ws_iff by blast
      next
        case (snoc rest1 l)
        with eq have l: "l = 0x0A" and "a = g @ js ''_export'' @ w' # rest1"
          by (simp_all add: append_eq_append_conv2 [of a "[0x0A]"] split: if_splits)
        then have "length rest1 < length a" by simp
        with 1 have "occurs_ws ?L (replace_export (rest1 @ 0x0A # ?y))" by blast
        with snoc l show ?thesis by simp
      qed
      then have "occurs_ws ?L ((g @ js ''export'') @ w' # replace_export (rest0 @ ?y))"
        by (rule occurs_ws_suffix)
      with replace_match [OF m2] show ?thesis by simp
    qed
  qed
qed

lemma replace_snoc_newline: "\<exists>a'. replace_export (a @ [0x0A]) = a' @ [0x0A]"
proof -
  have "last (replace_export (a @ [0x0A])) = 0x0A"
    using replace_last [of "a @ [0x0A]"] by simp
  moreover have "replace_export (a @ [0x0A]) \<noteq> []" by simp
  ultimately show ?thesis by (metis append_butlast_last_id)
qed

text \<open>
  Claim C2, as amended. The rewrite is idempotent on exactly the strings that have no
  occurrence of a newline, \<open>_export\<close>, a newline, \<open>_export\<close> and a white space unit in a
  row: on such a string applying it twice gives the same result as applying it once, and
  on any other string the second application changes the result of the first.
\<close>

theorem replace_export_idempotent:
  "replace_export (replace_export s) = replace_export s \<longleftrightarrow>
   \<not> (\<exists>a w b. s = a @ 0x0A # js ''_export'' @ 0x0A # js ''_export'' @ w # b \<and> is_space w)"
proof
  assume i: "replace_export (replace_export s) = replace_export s"
  show "\<not> (\<exists>a w b. s = a @ 0x0A # js ''_export'' @ 0x0A # js ''_export'' @ w # b \<and> is_space w)"
  proof
    assume "\<exists>a w b. s = a @ 0x0A # js ''_export'' @ 0x0A # js ''_export'' @ w # b \<and> is_space w"
    then obtain a w b where "s = a @ 0x0A # js ''_export'' @ 0x0A # js ''_export'' @ w # b"
      and "is_space w" by blast
    then have "occurs_ws (0x0A # js ''_export'') (replace_export s)"
      using replace_chain_legacy by blast
    then have "length (replace_export (replace_export s)) < length (replace_export s)"
      by (rule replace_shorter)
    with i show False by simp
  qed
next
  assume n: "\<not> (\<exists>a w b. s = a @ 0x0A # js ''_export'' @ 0x0A # js ''_export'' @ w # b \<and> is_space w)"
  have "(0x0A # js ''_export'' @ 0x0A # js ''_export'') @ w # b
      = 0x0A # js ''_export'' @ 0x0A # js ''_export'' @ w # b" for w b by simp
  with n have "\<not> occurs_ws (0x0A # js ''_export'' @ 0x0A # js ''_export'') s"
    unfolding occurs_ws_iff by metis
  then have "\<not> occurs_ws (0x0A # js ''_export'') (replace_export s)"
    by (rule replace_no_legacy)
  then show "replace_export (replace_export s) = replace_export s" by (rule replace_unchanged)
qed

text \<open>An instance: a code string with one legacy export line.\<close>

theorem replace_export_idempotent_witness:
  "\<not> (\<exists>a w b. js ''a'' @ [0x0A, 0x0A] @ js ''_export const x = 1''
          = a @ 0x0A # js ''_export'' @ 0x0A # js ''_export'' @ w # b \<and> is_space w)
   \<and> replace_export (replace_export (js ''a'' @ [0x0A, 0x0A] @ js ''_export const x = 1''))
     = replace_export (js ''a'' @ [0x0A, 0x0A] @ js ''_export const x = 1'')
   \<and> replace_export (js ''a'' @ [0x0A, 0x0A] @ js ''_export const x = 1'')
     = js ''a'' @ [0x0A, 0x0A] @ js ''export const x = 1''"
proof -
  let ?s = "js ''a'' @ [0x0A, 0x0A] @ js ''_export const x = 1''"
  have "\<not> occurs_ws (0x0A # js ''_export'' @ 0x0A # js ''_export'') ?s"
    by (simp add: starts_ws_def)
  then have "\<not> (\<exists>a w b. ?s = a @ (0x0A # js ''_export'' @ 0x0A # js ''_export'') @ w # b \<and> is_space w)"
    unfolding occurs_ws_iff .
  then have h: "\<not> (\<exists>a w b. ?s = a @ 0x0A # js ''_export'' @ 0x0A # js ''_export'' @ w # b \<and> is_space w)"
    by simp
  have "replace_export ?s = js ''a'' @ [0x0A, 0x0A] @ js ''export const x = 1''"
    by (simp add: replace_export.simps match_at_eq is_newline_def is_space_def)
  with replace_export_idempotent [of ?s] h show ?thesis by blast
qed

text \<open>
  Claim C2 as stated fails. In \<open>a\n_export\n_export b\<close> the first match takes the second
  newline as its white space unit, so the first pass leaves the second \<open>_export\<close>, and the
  second pass rewrites it.
\<close>

theorem replace_export_twice_counterexample:
  "replace_export (replace_export (js ''a'' @ [0x0A] @ js ''_export'' @ [0x0A] @ js ''_export b''))
     \<noteq> replace_export (js ''a'' @ [0x0A] @ js ''_export'' @ [0x0A] @ js ''_export b'')"
  by (simp add: replace_export.simps match_at_eq is_newline_def is_space_def)

text \<open>
  Claim C3. Where the code string holds two newlines, \<open>_export\<close> and a white space unit,
  one application of the fix-up yields the same two newlines, \<open>export\<close> and the same white
  space unit at that place, between the rewritten text before the occurrence and the
  rewritten text after it. A string with no occurrence of a newline, \<open>_export\<close> and a
  white space unit in a row is left unchanged.
\<close>

theorem legacy_export_rewritten:
  "(is_space w \<longrightarrow>
      (\<exists>a'. replace_export (a @ [0x0A]) = a' @ [0x0A] \<and>
             replace_export (a @ [0x0A, 0x0A] @ js ''_export'' @ w # b)
               = a' @ [0x0A, 0x0A] @ js ''export'' @ w # replace_export b))
   \<and> (\<not> (\<exists>x v y. s = x @ 0x0A # js ''_export'' @ v # y \<and> is_space v) \<longrightarrow>
        replace_export s = s)"
proof (intro conjI impI)
  assume w: "is_space w"
  obtain a' where a': "replace_export (a @ [0x0A]) = a' @ [0x0A]"
    using replace_snoc_newline by blast
  with replace_double_newline [OF w, of a b]
  have "replace_export (a @ [0x0A, 0x0A] @ js ''_export'' @ w # b)
          = a' @ [0x0A, 0x0A] @ js ''export'' @ w # replace_export b" by simp
  with a' show "\<exists>a'. replace_export (a @ [0x0A]) = a' @ [0x0A] \<and>
             replace_export (a @ [0x0A, 0x0A] @ js ''_export'' @ w # b)
               = a' @ [0x0A, 0x0A] @ js ''export'' @ w # replace_export b" by blast
next
  assume n: "\<not> (\<exists>x v y. s = x @ 0x0A # js ''_export'' @ v # y \<and> is_space v)"
  have "(0x0A # js ''_export'') @ v # y = 0x0A # js ''_export'' @ v # y" for v y by simp
  with n have "\<not> occurs_ws (0x0A # js ''_export'') s"
    unfolding occurs_ws_iff by metis
  then show "replace_export s = s" by (rule replace_unchanged)
qed

text \<open>An instance of each half.\<close>

theorem legacy_export_rewritten_witness:
  "is_space 0x20
   \<and> replace_export (js ''let a'' @ [0x0A, 0x0A] @ js ''_export'' @ 0x20 # js ''default a'')
       = js ''let a'' @ [0x0A, 0x0A] @ js ''export'' @ 0x20 # js ''default a''
   \<and> \<not> (\<exists>x v y. js ''my_export = 1'' = x @ 0x0A # js ''_export'' @ v # y \<and> is_space v)
   \<and> replace_export (js ''my_export = 1'') = js ''my_export = 1''"
proof -
  have w: "is_space 0x20" by (simp add: is_space_def)
  have "\<not> occurs_ws (0x0A # js ''_export'') (js ''my_export = 1'')"
    by (simp add: starts_ws_def)
  then have "\<not> (\<exists>x v y. js ''my_export = 1'' = x @ (0x0A # js ''_export'') @ v # y \<and> is_space v)"
    unfolding occurs_ws_iff .
  then have n: "\<not> (\<exists>x v y. js ''my_export = 1'' = x @ 0x0A # js ''_export'' @ v # y \<and> is_space v)"
    by simp
  have p: "replace_export (js ''let a'' @ [0x0A]) = js ''let a'' @ [0x0A]"
    by (simp add: replace_export.simps match_at_eq is_newline_def)
  have q: "replace_export (js ''default a'') = js ''default a''"
    by (simp add: replace_export.simps match_at_eq is_newline_def)
  from legacy_export_rewritten [of "0x20" "js ''let a''" "js ''default a''" "js ''my_export = 1''"] w n
  obtain a' where a': "replace_export (js ''let a'' @ [0x0A]) = a' @ [0x0A]"
    and r: "replace_export (js ''let a'' @ [0x0A, 0x0A] @ js ''_export'' @ 0x20 # js ''default a'')
              = a' @ [0x0A, 0x0A] @ js ''export'' @ 0x20 # replace_export (js ''default a'')"
    and u: "replace_export (js ''my_export = 1'') = js ''my_export = 1''"
    by blast
  from a' p have "a' = js ''let a''" by simp
  with r q have "replace_export (js ''let a'' @ [0x0A, 0x0A] @ js ''_export'' @ 0x20 # js ''default a'')
       = js ''let a'' @ [0x0A, 0x0A] @ js ''export'' @ 0x20 # js ''default a''"
    by simp
  with w n u show ?thesis by blast
qed

section \<open>Properties of the component map\<close>

lemma pre_undefined: "extract p = None \<Longrightarrow> pre extract p = Inl TypeError"
  by (simp add: pre_def read_codeString_def)

lemma pre_defined:
  "extract p = Some c \<Longrightarrow>
     pre extract p = Inr (Code (c\<lparr>codeString := replace_export (codeString c)\<rparr>))"
  by (simp add: pre_def read_codeString_def)

lemma pre_never_HtmlPre: "pre extract p \<noteq> Inr (HtmlPre q)"
  by (cases "extract p") (simp_all add: pre_undefined pre_defined)

text \<open>
  Claim C1 asks that a pre node from which no code string can be extracted is rendered
  with the default \<open>pre\<close> element and that the handler never fails. The handler reads
  \<open>props.codeString\<close> before it tests \<open>props\<close>, so for such a node it throws, and the
  branch with the default rendering is never taken: the evaluation at a bare block.
\<close>

theorem pre_bare_throws: "pre preToCodeBlock (Bare (js ''plain text'')) = Inl TypeError"
  by (simp add: pre_undefined)

text \<open>
  Claim C6. The map has the four keys \<open>h1\<close>, \<open>h2\<close>, \<open>p\<close> and \<open>pre\<close> and no other; the first
  three return the components Title, Subtitle and Paragraph with the props they were
  given, \<open>pre\<close> is the code handler, which turns a code fence into the Code component, and
  a node kind such as \<open>li\<close> or \<open>blockquote\<close> has no entry.
\<close>

theorem components_table:
  "dom (components extract) = {''h1'', ''h2'', ''p'', ''pre''}
   \<and> components extract ''h1'' = Some (\<lambda>props. Inr (Title props))
   \<and> components extract ''h2'' = Some (\<lambda>props. Inr (Subtitle props))
   \<and> components extract ''p'' = Some (\<lambda>props. Inr (Paragraph props))
   \<and> components extract ''pre'' = Some (pre extract)
   \<and> pre preToCodeBlock (Fence lang text)
       = Inr (Code \<lparr> codeString = replace_export text, language = lang \<rparr>)
   \<and> components extract ''li'' = None
   \<and> components extract ''blockquote'' = None"
  by (auto simp: components_def pre_defined)

section \<open>Properties of the post template\<close>

lemma post_sections_Post:
  "post_sections (Post cfg data) =
     [Elem ''h1'' [] [Text (title (frontmatter (mdx data)))],
      Elem ''div'' [] [date_line (date (frontmatter (mdx data)))],
      banner_section (site data) (banner (frontmatter (mdx data))),
      Elem ''br'' [] [],
      video_callout (video_url (frontmatter (mdx data))) (video_teaser (frontmatter (mdx data))),
      Elem ''MDXRenderer'' [] [Text (body (code (mdx data)))]]"
  by (simp add: post_sections_def Post_def Let_def)

lemma tags_date_line: "set (tags (date_line d :: 'f node)) \<subseteq> {''h3''}"
  by (cases d) (auto simp: date_line_def and_then_def)

lemma tags_child [simp]: "tags (child v :: 'f node) = []"
  by (cases v) auto

lemma tags_video_callout:
  "set (tags (video_callout u t :: 'f node)) \<subseteq> {''Aside'', ''h3'', ''div'', ''YouTube'', ''p'', ''OutboundLink''}"
  by (auto simp: video_callout_def)

lemma tags_Post:
  fixes data :: "'f page_data"
  shows "set (tags (Post cfg data)) =
     {''Layout'', ''SEO'', ''article'', ''Container'', ''h1'', ''div'', ''br'', ''MDXRenderer'', ''Share''}
     \<union> set (tags (date_line (date (frontmatter (mdx data))) :: 'f node))
     \<union> set (tags (banner_section (site data) (banner (frontmatter (mdx data)))))
     \<union> set (tags (video_callout (video_url (frontmatter (mdx data))) (video_teaser (frontmatter (mdx data))) :: 'f node))"
  by (auto simp: Post_def Let_def share_block_def)

text \<open>
  Claim C4. When the banner of the frontmatter is absent, the banner slot of the page holds
  nothing, no \<open>Img\<close> element occurs anywhere in the page, and the other sections and the
  closing share block are produced as usual: a page with a banner differs from it in the
  banner slot only.
\<close>

theorem post_without_banner:
  assumes "banner (frontmatter (mdx data)) = None"
  shows "post_sections (Post cfg data) ! 2 = Empty
    \<and> ''Img'' \<notin> set (tags (Post cfg data))
    \<and> post_sections (Post cfg data) =
        [Elem ''h1'' [] [Text (title (frontmatter (mdx data)))],
         Elem ''div'' [] [date_line (date (frontmatter (mdx data)))],
         Empty,
         Elem ''br'' [] [],
         video_callout (video_url (frontmatter (mdx data))) (video_teaser (frontmatter (mdx data))),
         Elem ''MDXRenderer'' [] [Text (body (code (mdx data)))]]
    \<and> last (node_children (Post cfg data)) = share_block cfg (frontmatter (mdx data))
    \<and> post_sections
          (Post cfg (data\<lparr>mdx := (mdx data)\<lparr>frontmatter := (frontmatter (mdx data))\<lparr>banner := Some f\<rparr>\<rparr>\<rparr>))
        = (post_sections (Post cfg data))[2 := banner_section (site data) (Some f)]"
proof -
  have b: "banner_section (site data) (banner (frontmatter (mdx data))) = Empty"
    using assms by (simp add: banner_section_def)
  have "''Img'' \<notin> set (tags (Post cfg data))"
    unfolding tags_Post b using tags_date_line tags_video_callout by fastforce
  moreover have "last (node_children (Post cfg data)) = share_block cfg (frontmatter (mdx data))"
    by (simp add: Post_def Let_def)
  ultimately show ?thesis by (simp add: post_sections_Post b)
qed

text \<open>An instance: the demo post with its banner removed, next to the post as it is.\<close>

theorem post_without_banner_witness:
  "banner (frontmatter (mdx (with_frontmatter (banner_update (\<lambda>_. None)) demo01))) = None
   \<and> ''Img'' \<notin> set (tags (Post website (with_frontmatter (banner_update (\<lambda>_. None)) demo01)))
   \<and> post_sections (Post website (with_frontmatter (banner_update (\<lambda>_. None)) demo01)) ! 2 = Empty
   \<and> ''Img'' \<in> set (tags (Post website demo01))"
proof -
  let ?d = "with_frontmatter (banner_update (\<lambda>_. None)) demo01"
  have h: "banner (frontmatter (mdx ?d)) = None"
    by (simp add: with_frontmatter_def)
  have "''Img'' \<in> set (tags (Post website demo01))"
    by (simp add: tags_Post banner_section_def demo01_def)
  with h post_without_banner [OF h, of website] show ?thesis by blast
qed

text \<open>
  Claim C5. The video callout is the fifth section of the page. With a video URL that is
  set (truthy) and a teaser that is absent (falsy) it is the \<open>Aside\<close> block with nothing
  between its heading and its link; without a video URL it is nothing, and the page holds
  no \<open>Aside\<close> and no \<open>YouTube\<close> element; with a video URL and a teaser text it is the
  \<open>Aside\<close> block with a paragraph holding that text.
\<close>

theorem post_video_callout:
  fixes data :: "'f page_data"
  defines "u \<equiv> video_url (frontmatter (mdx data))"
    and "t \<equiv> video_teaser (frontmatter (mdx data))"
  shows "post_sections (Post cfg data) ! 4 = video_callout u t
    \<and> (truthy u \<and> \<not> truthy t \<longrightarrow>
         (video_callout u t :: 'f node) =
           Elem ''Aside'' []
             [Elem ''h3'' []
                [Elem ''div'' [] [Elem ''YouTube'' [(''url'', AVal u)] []],
                 Text (js '' ''), Text (js ''This post has a companion video'')],
              Empty,
              Elem ''p'' []
                [Elem ''OutboundLink'' [(''href'', AVal u)] [Text (js ''Watch the video'')]]]
         \<and> ''Aside'' \<in> set (tags (Post cfg data)))
    \<and> (\<not> truthy u \<longrightarrow>
         (video_callout u t :: 'f node) = Empty \<and> ''Aside'' \<notin> set (tags (Post cfg data))
         \<and> ''YouTube'' \<notin> set (tags (Post cfg data)))
    \<and> (\<forall>x. truthy u \<and> t = JStr x \<and> x \<noteq> [] \<longrightarrow>
         (video_callout u t :: 'f node) =
           Elem ''Aside'' []
             [Elem ''h3'' []
                [Elem ''div'' [] [Elem ''YouTube'' [(''url'', AVal u)] []],
                 Text (js '' ''), Text (js ''This post has a companion video'')],
              Elem ''p'' [] [Text x],
              Elem ''p'' []
                [Elem ''OutboundLink'' [(''href'', AVal u)] [Text (js ''Watch the video'')]]]
         \<and> ''Aside'' \<in> set (tags (Post cfg data)))"
proof -
  have banner_tags: "set (tags (banner_section (site data) (banner (frontmatter (mdx data)))))
      \<subseteq> {''div'', ''Img''}"
    by (auto simp: banner_section_def split: option.splits)
  have no: "\<not> truthy u \<Longrightarrow> ''Aside'' \<notin> set (tags (Post cfg data))
       \<and> ''YouTube'' \<notin> set (tags (Post cfg data))"
    unfolding tags_Post using banner_tags tags_date_line [of "date (frontmatter (mdx data))"]
    by (auto simp: video_callout_def u_def)
  have yes: "truthy u \<Longrightarrow> ''Aside'' \<in> set (tags (Post cfg data))"
    unfolding tags_Post by (simp add: video_callout_def u_def)
  show ?thesis
    using no yes
    by (auto simp: post_sections_Post u_def t_def video_callout_def)
qed

text \<open>An instance of each of the three cases, on the demo post.\<close>

theorem post_video_callout_witness:
  "truthy (video_url (frontmatter (mdx (with_frontmatter (video_url_update (\<lambda>_. JStr (js ''https://youtu.be/v''))) demo01))))
   \<and> \<not> truthy (video_teaser (frontmatter (mdx (with_frontmatter (video_url_update (\<lambda>_. JStr (js ''https://youtu.be/v''))) demo01))))
   \<and> ''Aside'' \<in> set (tags (Post website (with_frontmatter (video_url_update (\<lambda>_. JStr (js ''https://youtu.be/v''))) demo01)))
   \<and> \<not> truthy (video_url (frontmatter (mdx demo01)))
   \<and> ''Aside'' \<notin> set (tags (Post website demo01))
   \<and> truthy (video_url (frontmatter (mdx (with_frontmatter
         (video_teaser_update (\<lambda>_. JStr (js ''Watch me''))
            \<circ> video_url_update (\<lambda>_. JStr (js ''https://youtu.be/v''))) demo01))))
   \<and> Elem ''p'' [] [Text (js ''Watch me'')] \<in> set (node_children (post_sections (Post website (with_frontmatter
         (video_teaser_update (\<lambda>_. JStr (js ''Watch me''))
            \<circ> video_url_update (\<lambda>_. JStr (js ''https://youtu.be/v''))) demo01)) ! 4))"
proof -
  let ?d1 = "with_frontmatter (video_url_update (\<lambda>_. JStr (js ''https://youtu.be/v''))) demo01"
  let ?d3 = "with_frontmatter (video_teaser_update (\<lambda>_. JStr (js ''Watch me''))
            \<circ> video_url_update (\<lambda>_. JStr (js ''https://youtu.be/v''))) demo01"
  have a1: "truthy (video_url (frontmatter (mdx ?d1)))"
    and b1: "\<not> truthy (video_teaser (frontmatter (mdx ?d1)))"
    by (simp_all add: with_frontmatter_def demo01_def)
  have a2: "\<not> truthy (video_url (frontmatter (mdx demo01)))"
    by (simp add: demo01_def)
  have a3: "truthy (video_url (frontmatter (mdx ?d3)))"
    and b3: "video_teaser (frontmatter (mdx ?d3)) = JStr (js ''Watch me'')"
    and c3: "js ''Watch me'' \<noteq> []"
    by (simp_all add: with_frontmatter_def demo01_def)
  from post_video_callout [of website ?d1] a1 b1
  have r1: "''Aside'' \<in> set (tags (Post website ?d1))" by blast
  from post_video_callout [of website demo01] a2
  have r2: "''Aside'' \<notin> set (tags (Post website demo01))" by blast
  from post_video_callout [of website ?d3] a3 b3 c3
  have "post_sections (Post website ?d3) ! 4 =
      Elem ''Aside'' []
             [Elem ''h3'' []
                [Elem ''div'' [] [Elem ''YouTube'' [(''url'', AVal (video_url (frontmatter (mdx ?d3))))] []],
                 Text (js '' ''), Text (js ''This post has a companion video'')],
              Elem ''p'' [] [Text (js ''Watch me'')],
              Elem ''p'' []
                [Elem ''OutboundLink'' [(''href'', AVal (video_url (frontmatter (mdx ?d3))))] [Text (js ''Watch the video'')]]]"
    by metis
  then have r3: "Elem ''p'' [] [Text (js ''Watch me'')] \<in> set (node_children (post_sections (Post website ?d3) ! 4))"
    by simp
  from a1 b1 r1 a2 r2 a3 r3 show ?thesis by blast
qed

text \<open>
  Claim C7. The last child of the page layout is the container with the \<open>Share\<close> element
  (followed by a line break); its \<open>url\<close> is the site URL of the configuration, a slash, the
  slug of the record and a slash, its \<open>title\<close> is the title of the record, and the page
  holds one \<open>Share\<close> element. With the configuration of the site the URL starts with
  \<open>https://joefiorini.com/\<close>.
\<close>

theorem post_share_block:
  "last (node_children (Post cfg data)) =
     Elem ''Container'' [(''noVerticalPadding'', AVal (JBool True))]
       [Elem ''Share''
          [(''url'', AVal (JStr (siteUrl cfg @ js ''/'' @ slug (frontmatter (mdx data)) @ js ''/''))),
           (''title'', AVal (JStr (title (frontmatter (mdx data))))),
           (''twitterHandle'', AVal (JStr (twitterHandle cfg)))] [],
        Elem ''br'' [] []]
   \<and> siteUrl website @ js ''/'' @ slug (frontmatter (mdx data)) @ js ''/''
       = js ''https://joefiorini.com/'' @ slug (frontmatter (mdx data)) @ js ''/''
   \<and> length (filter (\<lambda>n. n = ''Share'') (tags (Post cfg data))) = 1"
proof -
  have d: "filter (\<lambda>n. n = ''Share'') (tags (date_line x :: 'f node)) = []" for x
    by (cases x) (auto simp: date_line_def and_then_def)
  have b: "filter (\<lambda>n. n = ''Share'') (tags (banner_section s y :: 'f node)) = []" for s y
    by (cases y) (auto simp: banner_section_def)
  have v: "filter (\<lambda>n. n = ''Share'') (tags (video_callout x y :: 'f node)) = []" for x y
    by (auto simp: video_callout_def)
  show ?thesis
    by (simp add: Post_def Let_def share_block_def website_def d b v)
qed

section \<open>Properties of the footer\<close>

lemma subtrees_child: "set (subtrees (child v :: 'f node)) \<subseteq> {Empty} \<union> {Text s | s. v = JStr s}"
  by (cases v) auto

lemma subtrees_subscribe_section:
  "Text s \<in> set (subtrees (subscribe_section a b :: 'f node)) \<Longrightarrow> s = []"
  by (cases b) (auto simp: subscribe_section_def and_then_def split: if_splits)

lemma subtrees_Footer_Text:
  "s \<noteq> [] \<Longrightarrow>
   Text s \<in> set (subtrees (Footer year p :: 'f node)) \<longleftrightarrow>
   Text s \<in> set (subtrees (copyright_line year (author p) :: 'f node))"
  by (auto simp: Footer_def dest: subtrees_subscribe_section)

text \<open>
  Claim C9. The footer holds a text with the copyright sign if and only if \<open>author\<close> is
  truthy. For an author name that is a non-empty string the line is the name, a space, the
  copyright sign, a space and the year of the clock; for a falsy author the slot holds the
  value of \<open>author\<close> itself, which renders no text. The year comes from the clock, so two
  renderings with the same props differ when the year does.
\<close>

theorem footer_copyright:
  fixes p :: footer_props
  shows "((\<exists>s. Text s \<in> set (subtrees (Footer year p :: 'f node)) \<and> 0xA9 \<in> set s) \<longleftrightarrow> truthy (author p))
   \<and> (\<forall>a. author p = JStr a \<and> a \<noteq> [] \<longrightarrow>
         (copyright_line year (author p) :: 'f node)
            = Text (a @ js '' '' @ [0xA9] @ js '' '' @ number_to_string year)
         \<and> copyright_line year (author p) \<in> set (subtrees (Footer year p :: 'f node)))
   \<and> (\<not> truthy (author p) \<longrightarrow>
         (copyright_line year (author p) :: 'f node) = child (author p)
         \<and> (\<forall>s. Text s \<in> set (subtrees (Footer year p :: 'f node)) \<longrightarrow> s = []))
   \<and> (truthy (author p) \<longrightarrow> (Footer 2019 p :: 'f node) \<noteq> Footer 2020 p)"
proof (intro conjI allI impI)
  show "(\<exists>s. Text s \<in> set (subtrees (Footer year p :: 'f node)) \<and> 0xA9 \<in> set s) \<longleftrightarrow> truthy (author p)"
  proof
    assume "\<exists>s. Text s \<in> set (subtrees (Footer year p :: 'f node)) \<and> 0xA9 \<in> set s"
    then obtain s where s: "Text s \<in> set (subtrees (Footer year p :: 'f node))" "0xA9 \<in> set s"
      by blast
    then have "s \<noteq> []" by auto
    with s have "Text s \<in> set (subtrees (copyright_line year (author p) :: 'f node))"
      by (simp add: subtrees_Footer_Text)
    with s(2) show "truthy (author p)"
      by (cases "author p") (auto simp: copyright_line_def and_then_def split: if_splits)
  next
    assume t: "truthy (author p)"
    let ?s = "to_string (author p) @ js '' '' @ [0xA9] @ js '' '' @ number_to_string year"
    from t have "(copyright_line year (author p) :: 'f node) = Text ?s"
      by (simp add: copyright_line_def and_then_def)
    then have "Text ?s \<in> set (subtrees (Footer year p :: 'f node))"
      by (simp add: Footer_def)
    moreover have "0xA9 \<in> set ?s" by simp
    ultimately show "\<exists>s. Text s \<in> set (subtrees (Footer year p :: 'f node)) \<and> 0xA9 \<in> set s"
      by blast
  qed
next
  fix a assume "author p = JStr a \<and> a \<noteq> []"
  then show "(copyright_line year (author p) :: 'f node)
            = Text (a @ js '' '' @ [0xA9] @ js '' '' @ number_to_string year)"
    by (simp add: copyright_line_def and_then_def)
next
  fix a assume "author p = JStr a \<and> a \<noteq> []"
  show "copyright_line year (author p) \<in> set (subtrees (Footer year p :: 'f node))"
    by (cases "copyright_line year (author p) :: 'f node") (auto simp: Footer_def)
next
  assume "\<not> truthy (author p)"
  then show "(copyright_line year (author p) :: 'f node) = child (author p)"
    by (simp add: copyright_line_def and_then_def)
next
  fix s assume "\<not> truthy (author p)" "Text s \<in> set (subtrees (Footer year p :: 'f node))"
  then show "s = []"
    using subtrees_Footer_Text [of s year p, where 'f = 'f]
    by (cases "author p") (auto simp: copyright_line_def and_then_def split: if_splits)
next
  assume "truthy (author p)"
  then show "(Footer 2019 p :: 'f node) \<noteq> Footer 2020 p"
    by (simp add: Footer_def copyright_line_def and_then_def number_to_string_def digits.simps)
qed

text \<open>An instance: a footer with the author of the site in 2026, and one without author.\<close>

theorem footer_copyright_witness:
  "author \<lparr> author = JStr (js ''Joe Fiorini''), noSubscribeForm = Undefined, isPost = JBool True \<rparr>
      = JStr (js ''Joe Fiorini'') \<and> js ''Joe Fiorini'' \<noteq> []
   \<and> truthy (JStr (js ''Joe Fiorini''))
   \<and> (Text (js ''Joe Fiorini'' @ js '' '' @ [0xA9] @ js '' 2026'') :: unit node)
       \<in> set (subtrees (Footer 2026
            \<lparr> author = JStr (js ''Joe Fiorini''), noSubscribeForm = Undefined, isPost = JBool True \<rparr>))
   \<and> \<not> truthy (author \<lparr> author = Undefined, noSubscribeForm = Undefined, isPost = JBool True \<rparr>)
   \<and> (copyright_line 2026 (author \<lparr> author = Undefined, noSubscribeForm = Undefined, isPost = JBool True \<rparr>)
         :: unit node) = Empty"
proof -
  let ?p = "\<lparr> author = JStr (js ''Joe Fiorini''), noSubscribeForm = Undefined, isPost = JBool True \<rparr>"
  let ?q = "\<lparr> author = Undefined, noSubscribeForm = Undefined, isPost = JBool True \<rparr>"
  have a: "author ?p = JStr (js ''Joe Fiorini'') \<and> js ''Joe Fiorini'' \<noteq> []" by simp
  have y: "number_to_string 2026 = js ''2026''"
    by (simp add: number_to_string_def digits.simps)
  from footer_copyright [of 2026 ?p, where 'f = unit] a
  have "(copyright_line 2026 (author ?p) :: unit node)
            = Text (js ''Joe Fiorini'' @ js '' '' @ [0xA9] @ js '' '' @ number_to_string 2026)"
    and "(copyright_line 2026 (author ?p) :: unit node) \<in> set (subtrees (Footer 2026 ?p))"
    by blast+
  with y have r1: "(Text (js ''Joe Fiorini'' @ js '' '' @ [0xA9] @ js '' 2026'') :: unit node)
       \<in> set (subtrees (Footer 2026 ?p))" by simp
  have b: "\<not> truthy (author ?q)" by simp
  with footer_copyright [of 2026 ?q, where 'f = unit]
  have "(copyright_line 2026 (author ?q) :: unit node) = child (author ?q)" by blast
  then have r2: "(copyright_line 2026 (author ?q) :: unit node) = Empty" by simp
  from a r1 b r2 show ?thesis by simp
qed

text \<open>
  Claim C10. The footer holds the \<open>SubscribeForm\<close> element if and only if
  \<open>noSubscribeForm\<close> is falsy, and the \<open>HireMe\<close> element if and only if \<open>isPost\<close> is truthy
  and \<open>noSubscribeForm\<close> is falsy; \<open>HireMe\<close> stands inside the subscribe section, which is
  the first child of the footer's container.
\<close>

theorem footer_sections:
  "(''SubscribeForm'' \<in> set (tags (Footer year p :: 'f node)) \<longleftrightarrow> \<not> truthy (noSubscribeForm p))
   \<and> (''HireMe'' \<in> set (tags (Footer year p :: 'f node)) \<longleftrightarrow>
        truthy (isPost p) \<and> \<not> truthy (noSubscribeForm p))
   \<and> (subscribe_section (noSubscribeForm p) (isPost p) :: 'f node) =
        (if truthy (noSubscribeForm p) then Empty
         else Elem ''div'' []
                [if truthy (isPost p) then Elem ''HireMe'' [] [] else child (isPost p),
                 Elem ''SubscribeForm'' [] [], Elem ''br'' [] [], Elem ''br'' [] []])
   \<and> node_children (hd (node_children (Footer year p :: 'f node))) ! 0
        = subscribe_section (noSubscribeForm p) (isPost p)"
proof -
  have c: "tags (copyright_line year a :: 'f node) = []" for a
    by (cases a) (auto simp: copyright_line_def and_then_def)
  show ?thesis
    by (auto simp: Footer_def subscribe_section_def and_then_def c)
qed

section \<open>Properties of the page generator\<close>

lemma map_record_neighbours: "map page_record (neighbours prv xs) = xs"
  by (induction prv xs rule: neighbours.induct) auto

lemma chrono_sorted_strict:
  "sorted (map chrono_key xs) \<Longrightarrow> distinct (map cr_date xs) \<Longrightarrow>
     sorted_wrt (\<lambda>a b. cr_date a < cr_date b) xs"
proof (induction xs)
  case Nil
  then show ?case by simp
next
  case (Cons x xs)
  have "cr_date x < cr_date y" if "y \<in> set xs" for y
  proof -
    from Cons.prems(1) that have "chrono_key x \<le> chrono_key y" by auto
    then have "cr_date x \<le> cr_date y"
      unfolding chrono_key_def less_eq_prod_simp by (auto intro: less_imp_le)
    moreover from Cons.prems(2) that have "cr_date x \<noteq> cr_date y" by auto
    ultimately show ?thesis by (rule le_neq_trans)
  qed
  with Cons show ?case by simp
qed

lemma links_ok_set:
  "set rs = set rs' \<Longrightarrow> next_ok rs pg = next_ok rs' pg \<and> prev_ok rs pg = prev_ok rs' pg"
  by (auto simp: next_ok_def prev_ok_def split: option.splits)

lemma sorted_last_max:
  "sorted_wrt (\<lambda>a b. cr_date a < cr_date b) ps \<Longrightarrow> r \<in> set ps \<Longrightarrow>
     cr_date r \<le> cr_date (last ps)"
  by (induction ps) (auto simp: less_imp_le)

lemma neighbours_ok:
  assumes "sorted_wrt (\<lambda>a b. cr_date a < cr_date b) (ps @ xs)"
    and "prv = (if ps = [] then None else Some (last ps))"
    and "pg \<in> set (neighbours prv xs)"
  shows "next_ok (ps @ xs) pg \<and> prev_ok (ps @ xs) pg"
  using assms
proof (induction prv xs arbitrary: ps rule: neighbours.induct)
  case (1 prv)
  then show ?case by simp
next
  case (2 prv x)
  then have pg: "pg = \<lparr> page_record = x, page_prev = prv, page_next = None \<rparr>" by simp
  from "2.prems"(1) have lt: "\<forall>r \<in> set ps. cr_date r < cr_date x"
    and sp: "sorted_wrt (\<lambda>a b. cr_date a < cr_date b) ps"
    by (auto simp: sorted_wrt_append)
  have "next_ok (ps @ [x]) pg"
    using lt by (auto simp: next_ok_def pg less_imp_le)
  moreover have "prev_ok (ps @ [x]) pg"
  proof (cases "ps = []")
    case True
    with "2.prems"(2) show ?thesis by (simp add: prev_ok_def pg)
  next
    case False
    with "2.prems"(2) have "prv = Some (last ps)" by simp
    with False lt sorted_last_max [OF sp] show ?thesis
      by (auto simp: prev_ok_def pg)
  qed
  ultimately show ?case by simp
next
  case (3 prv x y ys)
  from "3.prems"(1) have lt: "\<forall>r \<in> set ps. cr_date r < cr_date x"
    and sp: "sorted_wrt (\<lambda>a b. cr_date a < cr_date b) ps"
    and xy: "cr_date x < cr_date y"
    and gt: "\<forall>r \<in> set (y # ys). cr_date x < cr_date r"
    and yys: "\<forall>r \<in> set ys. cr_date y < cr_date r"
    by (auto simp: sorted_wrt_append)
  from "3.prems"(3) consider
      (head) "pg = \<lparr> page_record = x, page_prev = prv, page_next = Some y \<rparr>"
    | (tail) "pg \<in> set (neighbours (Some x) (y # ys))"
    by auto
  then show ?case
  proof cases
    case head
    have "next_ok (ps @ x # y # ys) pg"
      using lt xy yys by (auto simp: next_ok_def head less_imp_le)
    moreover have "prev_ok (ps @ x # y # ys) pg"
    proof (cases "ps = []")
      case True
      with "3.prems"(2) gt show ?thesis by (auto simp: prev_ok_def head less_imp_le)
    next
      case False
      with "3.prems"(2) have "prv = Some (last ps)" by simp
      with False lt gt sorted_last_max [OF sp] show ?thesis
        by (auto simp: prev_ok_def head)
    qed
    ultimately show ?thesis by simp
  next
    case tail
    have "sorted_wrt (\<lambda>a b. cr_date a < cr_date b) ((ps @ [x]) @ y # ys)"
      using "3.prems"(1) by simp
    moreover have "Some x = (if ps @ [x] = [] then None else Some (last (ps @ [x])))" by simp
    ultimately have "next_ok ((ps @ [x]) @ y # ys) pg \<and> prev_ok ((ps @ [x]) @ y # ys) pg"
      using tail by (rule "3.IH")
    then show ?thesis by simp
  qed
qed


lemma generate_ok:
  assumes dates: "distinct (map cr_date (filter cr_published rs))"
    and slugs: "distinct (map cr_slug (filter cr_published rs))"
  shows "\<exists>pages. generate rs = Inr pages
    \<and> length pages = length (filter cr_published rs)
    \<and> set (map page_record pages) = set (filter cr_published rs)
    \<and> (\<forall>pg \<in> set pages.
          next_ok (filter cr_published rs) pg \<and> prev_ok (filter cr_published rs) pg)"
proof -
  let ?pub = "filter cr_published rs"
  let ?asc = "sort_key chrono_key ?pub"
  let ?pages = "rev (neighbours None ?asc)"
  have g: "generate rs = Inr ?pages"
    using slugs by (simp add: generate_def)
  have "map page_record ?pages = rev ?asc"
    by (simp add: rev_map [symmetric] map_record_neighbours)
  then have len: "length ?pages = length ?pub"
    and st: "set (map page_record ?pages) = set ?pub"
    by (metis length_map length_rev length_sort, metis set_rev set_sort)
  have "distinct (map cr_date ?asc)"
    using dates by (metis distinct_map distinct_sort inj_on_def set_sort)
  with sorted_sort_key [of chrono_key ?pub]
  have "sorted_wrt (\<lambda>a b. cr_date a < cr_date b) ([] @ ?asc)"
    by (simp add: chrono_sorted_strict)
  then have "next_ok ([] @ ?asc) pg \<and> prev_ok ([] @ ?asc) pg" if "pg \<in> set ?pages" for pg
    using that by (intro neighbours_ok [where prv = None]) simp_all
  moreover have "set ([] @ ?asc) = set ?pub" by simp
  ultimately have "\<forall>pg \<in> set ?pages. next_ok ?pub pg \<and> prev_ok ?pub pg"
    using links_ok_set by blast
  with g len st show ?thesis by blast
qed

lemma generate_filter: "generate (filter cr_published rs) = generate rs"
  by (simp add: generate_def)

lemma generate_two:
  assumes "cr_published A" "cr_published B" "cr_slug A \<noteq> cr_slug B"
    and "cr_date A = (2017, 1, 1)" "cr_date B = (2017, 2, 1)"
  shows "generate [A, B] =
           Inr [\<lparr> page_record = B, page_prev = Some A, page_next = None \<rparr>,
                \<lparr> page_record = A, page_prev = None, page_next = Some B \<rparr>]"
    and "generate [B, A] =
           Inr [\<lparr> page_record = B, page_prev = Some A, page_next = None \<rparr>,
                \<lparr> page_record = A, page_prev = None, page_next = Some B \<rparr>]"
  using assms by (auto simp: generate_def chrono_key_def)

text \<open>
  Claim C8. For published records with distinct dates (and, as the data model requires,
  distinct slugs) the generator emits one page per published record, and the links of
  every page are as \<open>next_ok\<close> and \<open>prev_ok\<close> say: next is the record with the smallest
  date strictly greater, previous the one with the greatest date strictly smaller, the
  latest record has no next link and the earliest no previous link. For two published
  records A of 2017-01-01 and B of 2017-02-01, in either order, there are two pages: B with
  previous A and no next, and A with next B and no previous.
\<close>

theorem neighbour_links_chronological:
  "(distinct (map cr_date (filter cr_published rs)) \<and>
    distinct (map cr_slug (filter cr_published rs)) \<longrightarrow>
      (\<exists>pages. generate rs = Inr pages
        \<and> length pages = length (filter cr_published rs)
        \<and> set (map page_record pages) = set (filter cr_published rs)
        \<and> (\<forall>pg \<in> set pages.
              next_ok (filter cr_published rs) pg \<and> prev_ok (filter cr_published rs) pg)))
   \<and> (cr_published A \<and> cr_published B \<and> cr_slug A \<noteq> cr_slug B \<and>
      cr_date A = (2017, 1, 1) \<and> cr_date B = (2017, 2, 1) \<longrightarrow>
        generate [A, B] =
           Inr [\<lparr> page_record = B, page_prev = Some A, page_next = None \<rparr>,
                \<lparr> page_record = A, page_prev = None, page_next = Some B \<rparr>]
        \<and> generate [B, A] = generate [A, B])"
  using generate_ok [of rs] generate_two [of A B] by simp

text \<open>An instance: two published posts and a draft dated between them.\<close>

theorem neighbour_links_chronological_witness:
  "distinct (map cr_date (filter cr_published [post_b, draft_c, post_a]))
   \<and> distinct (map cr_slug (filter cr_published [post_b, draft_c, post_a]))
   \<and> cr_published post_a \<and> cr_published post_b \<and> cr_slug post_a \<noteq> cr_slug post_b
   \<and> cr_date post_a = (2017, 1, 1) \<and> cr_date post_b = (2017, 2, 1)
   \<and> generate [post_a, post_b] =
           Inr [\<lparr> page_record = post_b, page_prev = Some post_a, page_next = None \<rparr>,
                \<lparr> page_record = post_a, page_prev = None, page_next = Some post_b \<rparr>]
   \<and> generate [post_b, draft_c, post_a] = generate [post_a, post_b]
   \<and> next_ok [post_b, post_a] \<lparr> page_record = post_a, page_prev = None, page_next = Some post_b \<rparr>"
proof -
  let ?rs = "[post_b, draft_c, post_a]"
  have f: "filter cr_published ?rs = [post_b, post_a]"
    by (simp add: post_a_def post_b_def draft_c_def)
  have h1: "distinct (map cr_date (filter cr_published ?rs))"
    and h2: "distinct (map cr_slug (filter cr_published ?rs))"
    unfolding f by (simp_all add: post_a_def post_b_def)
  have h3: "cr_published post_a \<and> cr_published post_b \<and> cr_slug post_a \<noteq> cr_slug post_b
     \<and> cr_date post_a = (2017, 1, 1) \<and> cr_date post_b = (2017, 2, 1)"
    by (simp add: post_a_def post_b_def)
  from neighbour_links_chronological [of ?rs post_a post_b] h1 h2 h3
  obtain pages where g: "generate ?rs = Inr pages"
    and ok: "\<forall>pg \<in> set pages. next_ok (filter cr_published ?rs) pg"
    and ab: "generate [post_a, post_b] =
           Inr [\<lparr> page_record = post_b, page_prev = Some post_a, page_next = None \<rparr>,
                \<lparr> page_record = post_a, page_prev = None, page_next = Some post_b \<rparr>]"
    and ba: "generate [post_b, post_a] = generate [post_a, post_b]"
    by blast
  have e: "generate ?rs = generate [post_b, post_a]"
    using generate_filter [of ?rs] unfolding f by simp
  with g ab ba have "pages = [\<lparr> page_record = post_b, page_prev = Some post_a, page_next = None \<rparr>,
                \<lparr> page_record = post_a, page_prev = None, page_next = Some post_b \<rparr>]"
    by simp
  with ok f have "next_ok [post_b, post_a]
      \<lparr> page_record = post_a, page_prev = None, page_next = Some post_b \<rparr>" by simp
  with h1 h2 h3 ab ba e show ?thesis by simp
qed

end
